theory Spec2Isabelle
  imports Main
begin

section \<open>Text helpers of \<^verbatim>\<open>utils\<close>\<close>

text \<open>
  JavaScript strings are modelled as \<^typ>\<open>string\<close>.  Only two characters are ever
  inspected by the code: carriage return and line feed (the separators of
  \<^verbatim>\<open>nlRegexp = /\r\n|\r|\n/g\<close>), plus the space and the opening square bracket in
  \<^verbatim>\<open>extractError\<close>.
\<close>

definition CR :: char where
  "CR = CHR 0x0D"

definition LF :: char where
  "LF = CHR 0x0A"

text \<open>
  \<^verbatim>\<open>str.split(nlRegexp)\<close>: the text is cut at every match, scanning from the left, and the
  alternative \<^verbatim>\<open>\r\n\<close> is tried before a lone \<^verbatim>\<open>\r\<close>.  The result always has one more
  element than there are separators, so it is never empty.
\<close>

fun split_nl :: "string \<Rightarrow> string list" where
  "split_nl [] = [[]]"
| "split_nl (c # cs) =
     (if c = CR then
        (case cs of
           [] \<Rightarrow> [] # split_nl cs
         | d # ds \<Rightarrow> if d = LF then [] # split_nl ds else [] # split_nl cs)
      else if c = LF then [] # split_nl cs
      else (case split_nl cs of
              [] \<Rightarrow> [[c]]
            | l # ls \<Rightarrow> (c # l) # ls))"

text \<open>\<^verbatim>\<open>Array.prototype.join('\n')\<close>.\<close>

fun join_nl :: "string list \<Rightarrow> string" where
  "join_nl [] = []"
| "join_nl [l] = l"
| "join_nl (l # ls) = l @ LF # join_nl ls"

text \<open>
  \<^verbatim>\<open>message.charAt(0) === ' ' || message.charAt(0) === '['\<close>; \<^verbatim>\<open>charAt(0)\<close> of the empty
  string is the empty string, which equals neither.
\<close>

definition noise :: "string \<Rightarrow> bool" where
  "noise message = (case message of [] \<Rightarrow> False | c # _ \<Rightarrow> c = CHR '' '' \<or> c = CHR ''['')"

definition extractError :: "string \<Rightarrow> string" where
  "extractError stderr =
     join_nl (foldl (\<lambda>messages message. if noise message then [] else messages @ [message])
                [] (split_nl stderr))"

text \<open>
  \<^verbatim>\<open>err.message.match(/exited with code/)\<close>: does the pattern occur somewhere in the text.
\<close>

fun matches :: "string \<Rightarrow> string \<Rightarrow> bool" where
  "matches pat [] = (pat = [])"
| "matches pat (c # cs) = (take (length pat) (c # cs) = pat \<or> matches pat cs)"

text \<open>Decimal rendering of a number, as string concatenation with a number does.\<close>

fun showNat :: "nat \<Rightarrow> string" where
  "showNat n =
     (if n < 10 then [char_of (48 + n)]
      else showNat (n div 10) @ [char_of (48 + n mod 10)])"

declare showNat.simps [simp del]

definition showInt :: "int \<Rightarrow> string" where
  "showInt i = (if i < 0 then CHR ''-'' # showNat (nat (- i)) else showNat (nat i))"

section \<open>The line ring buffer \<^verbatim>\<open>utils.linesRing\<close>\<close>

text \<open>
  The closure variables of \<^verbatim>\<open>linesRing\<close> become the fields of a record.  \<^verbatim>\<open>max\<close> is
  named \<open>maxl\<close> here.  A registered callback is represented by an identifier; calling
  it with a line is recorded as the pair of the callback and the line, and every
  operation returns the calls it made, in order.
\<close>

type_synonym observer = nat
type_synonym delivery = "observer \<times> string"

record ring =
  cbs :: "observer list"
  lines :: "string list"
  current :: "string option"
  closed :: bool
  maxl :: int

definition linesRing :: "int \<Rightarrow> ring" where
  "linesRing maxLines =
     \<lparr>cbs = [], lines = [], current = None, closed = False, maxl = maxLines - 1\<rparr>"

definition emit_ring :: "ring \<Rightarrow> string \<Rightarrow> delivery list" where
  "emit_ring r line = map (\<lambda>cb. (cb, line)) (cbs r)"

definition callback_ring :: "ring \<Rightarrow> observer \<Rightarrow> ring \<times> delivery list" where
  "callback_ring r cb = (r\<lparr>cbs := cbs r @ [cb]\<rparr>, map (\<lambda>l. (cb, l)) (lines r))"

text \<open>
  \<^verbatim>\<open>if (max > -1 && lines.length > max) lines.splice(0, lines.length - max)\<close>
\<close>

definition splice_excess :: "int \<Rightarrow> string list \<Rightarrow> string list" where
  "splice_excess m ls =
     (if m > -1 \<and> int (length ls) > m then drop (length ls - nat m) ls else ls)"

definition append_ring :: "ring \<Rightarrow> string \<Rightarrow> ring \<times> delivery list" where
  "append_ring r str =
     (if closed r then (r, [])
      else if str = [] then (r, [])
      else
        let newLines = split_nl str in
        if length newLines = 1 then
          (case current r of
             Some c \<Rightarrow> (r\<lparr>current := Some (c @ hd newLines)\<rparr>, [])
           | None \<Rightarrow> (r\<lparr>current := Some (hd newLines)\<rparr>, []))
        else
          let completed = (case current r of
                             Some c \<Rightarrow> [c @ hd newLines]
                           | None \<Rightarrow> []);
              newLines1 = (case current r of
                             Some c \<Rightarrow> tl newLines
                           | None \<Rightarrow> newLines);
              emitted = completed @ butlast newLines1
          in (r\<lparr>current := Some (last newLines1),
                 lines := splice_excess (maxl r) (lines r @ emitted)\<rparr>,
              concat (map (emit_ring r) emitted)))"

definition get_ring :: "ring \<Rightarrow> string" where
  "get_ring r =
     (case current r of
        Some c \<Rightarrow> join_nl (lines r @ [c])
      | None \<Rightarrow> join_nl (lines r))"

text \<open>
  \<^verbatim>\<open>close\<close> pushes the pending line and then removes one line from the front
  (\<^verbatim>\<open>lines.shift()\<close>) when the sequence is longer than \<^verbatim>\<open>max\<close>.
\<close>

definition close_ring :: "ring \<Rightarrow> ring \<times> delivery list" where
  "close_ring r =
     (if closed r then (r, [])
      else
        (case current r of
           None \<Rightarrow> (r\<lparr>closed := True\<rparr>, [])
         | Some c \<Rightarrow>
             let pushed = lines r @ [c];
                 shifted = (if maxl r > -1 \<and> int (length pushed) > maxl r
                            then tl pushed else pushed)
             in (r\<lparr>lines := shifted, current := None, closed := True\<rparr>, emit_ring r c)))"

text \<open>A lifetime of a ring: a sequence of calls, with the callback invocations collected.\<close>

datatype ring_op = Append string | Close | Callback observer

fun ring_step :: "ring \<Rightarrow> ring_op \<Rightarrow> ring \<times> delivery list" where
  "ring_step r (Append str) = append_ring r str"
| "ring_step r Close = close_ring r"
| "ring_step r (Callback cb) = callback_ring r cb"

fun ring_run :: "ring \<Rightarrow> ring_op list \<Rightarrow> ring \<times> delivery list" where
  "ring_run r [] = (r, [])"
| "ring_run r (op # ops) =
     (case ring_step r op of
        (r1, ds1) \<Rightarrow> (case ring_run r1 ops of (r2, ds2) \<Rightarrow> (r2, ds1 @ ds2)))"

definition received :: "observer \<Rightarrow> delivery list \<Rightarrow> string list" where
  "received cb ds = map snd (filter (\<lambda>d. fst d = cb) ds)"

section \<open>The command object and one run of it\<close>

text \<open>
  The command object (\<^verbatim>\<open>this\<close> / \<^verbatim>\<open>self\<close>) with the properties the processor reads:
  the command, the arguments, the options after the constructor's defaults, whether
  \<^verbatim>\<open>self.childProc\<close> is set, and how many listeners the emitter holds for
  \<^verbatim>\<open>'stderr'\<close> (\<^verbatim>\<open>self.listeners('stderr').length\<close>).  \<^verbatim>\<open>options.timeout\<close> may be absent.
  Numbers are modelled as integers.
\<close>

record cmd =
  command :: string
  args :: "string list"
  captureStdout :: bool
  stdoutLines :: int
  timeout :: "int option"
  childProc :: bool
  stderrListeners :: nat

text \<open>
  What a run does to the outside, in the order it does it: notifications sent through
  \<^verbatim>\<open>self.emit\<close>, the call of \<^verbatim>\<open>self.endCallback\<close>, signals sent to the process, the
  logger's warning.  \<open>CallEndCB\<close> records that \<^verbatim>\<open>endCB\<close>, the callback handed to
  \<^verbatim>\<open>_spawnChildProcess\<close>, was entered, with the message of its error argument at that
  moment.  Calls into the emitter and into the caller's function are taken to return
  normally; a listener that throws (for Node's emitter this includes \<^verbatim>\<open>'error'\<close> emitted
  with no listener attached) is outside the model.
\<close>

datatype effect =
    EmitStart string "string list"
  | EmitData string
  | EmitStderr string
  | EmitError string string string
  | EmitEnd string string
  | EndCallback "string option" string string
  | ProcKill "string option"
  | LogWarn string
  | CallEndCB "string option"

datatype error = NoCommand | TypeError

text \<open>
  The state of one run: the object, the closure variables of \<^verbatim>\<open>run\<close> (\<^verbatim>\<open>ended\<close>) and of
  \<^verbatim>\<open>_spawnChildProcess\<close> (rings, flags, \<^verbatim>\<open>exitError\<close>), whether the one-shot timer of
  \<^verbatim>\<open>setTimeout\<close> is still waiting, and the trace of outputs so far.  An error object is
  represented by its message.
\<close>

record session =
  self :: cmd
  ended :: bool
  timerPending :: bool
  stdoutRing :: ring
  stdoutClosed :: bool
  stderrRing :: ring
  stderrClosed :: bool
  exitError :: "string option"
  processExited :: bool
  out :: "effect list"

text \<open>
  The only callback the processor registers on a ring is
  \<^verbatim>\<open>function (line) { self.emit('stderr', line); }\<close>, on the stderr ring.
\<close>

definition notify :: "delivery list \<Rightarrow> effect list" where
  "notify ds = map (\<lambda>d. EmitStderr (snd d)) ds"

definition emitEnd :: "string option \<Rightarrow> string \<Rightarrow> string \<Rightarrow> session \<Rightarrow> session" where
  "emitEnd err stdout stderr s =
     (if \<not> ended s then
        s\<lparr>ended := True,
          out := out s @
            [case err of
               Some e \<Rightarrow> EmitError e stdout stderr
             | None \<Rightarrow> EmitEnd stdout stderr,
             EndCallback err stdout stderr]\<rparr>
      else s)"

text \<open>
  \<^verbatim>\<open>endCB(err, stdoutRing, stderrRing)\<close>.  The process error handler calls it as
  \<^verbatim>\<open>endCB(err)\<close>, so both rings are \<^verbatim>\<open>undefined\<close> there (\<open>None\<close>), and the first
  \<^verbatim>\<open>.get()\<close> on one of them throws a TypeError; arguments are evaluated before
  \<^verbatim>\<open>emitEnd\<close> is entered.  With rings the call comes from \<^verbatim>\<open>handleExit\<close> and \<^verbatim>\<open>err\<close> is
  the object held in \<^verbatim>\<open>exitError\<close>, so \<^verbatim>\<open>err.message += ...\<close> is seen through
  \<^verbatim>\<open>exitError\<close> as well.
\<close>

definition endCB :: "string option \<Rightarrow> (ring \<times> ring) option \<Rightarrow> session \<Rightarrow> error + session" where
  "endCB err rings s =
     (let s1 = s\<lparr>self := (self s)\<lparr>childProc := False\<rparr>, out := out s @ [CallEndCB err]\<rparr> in
      case err of
        Some e \<Rightarrow>
          if matches ''exited with code'' e then
            (case rings of
               None \<Rightarrow> Inl TypeError
             | Some (stdoutR, stderrR) \<Rightarrow>
                 let e1 = e @ '': '' @ extractError (get_ring stderrR) in
                 Inr (emitEnd (Some e1) (get_ring stdoutR) (get_ring stderrR)
                        (s1\<lparr>exitError := Some e1\<rparr>)))
          else
            (case rings of
               None \<Rightarrow> Inl TypeError
             | Some (stdoutR, stderrR) \<Rightarrow>
                 Inr (emitEnd (Some e) (get_ring stdoutR) (get_ring stderrR) s1))
      | None \<Rightarrow>
          (case rings of
             None \<Rightarrow> Inl TypeError
           | Some (stdoutR, stderrR) \<Rightarrow>
               Inr (emitEnd None (get_ring stdoutR) (get_ring stderrR) s1)))"

text \<open>The condition under which \<^verbatim>\<open>handleExit\<close> calls \<^verbatim>\<open>endCB\<close>.\<close>

definition gate_open :: "session \<Rightarrow> bool" where
  "gate_open s =
     (processExited s \<and> (stdoutClosed s \<or> \<not> captureStdout (self s)) \<and> stderrClosed s)"

definition handleExit :: "string option \<Rightarrow> session \<Rightarrow> error + session" where
  "handleExit err s =
     (let s1 = (case err of Some e \<Rightarrow> s\<lparr>exitError := Some e\<rparr> | None \<Rightarrow> s) in
      if gate_open s1 then endCB (exitError s1) (Some (stdoutRing s1, stderrRing s1)) s1
      else Inr s1)"

text \<open>
  What can happen to a run: the notifications of the process and of its two streams,
  the timer, and the caller using the returned object (\<^verbatim>\<open>kill(signal)\<close>,
  \<^verbatim>\<open>on('stderr', fn)\<close>).  The exit notification carries \<^verbatim>\<open>code\<close> and \<^verbatim>\<open>signal\<close>, either
  of which may be \<^verbatim>\<open>null\<close>.
\<close>

datatype event =
    ProcError string
  | Exit "int option" "string option"
  | StdoutData string
  | StdoutClose
  | StderrData string
  | StderrClose
  | Timeout
  | UserKill "string option"
  | UserOnStderr

definition on_exit :: "int option \<Rightarrow> string option \<Rightarrow> session \<Rightarrow> error + session" where
  "on_exit code signal s =
     (let s1 = s\<lparr>processExited := True\<rparr> in
      if signal \<noteq> None \<and> signal \<noteq> Some [] then
        handleExit (Some (''child process target was killed with signal '' @ the signal)) s1
      else if code \<noteq> None \<and> code \<noteq> Some 0 then
        handleExit (Some (''child process target exited with code '' @ showInt (the code))) s1
      else handleExit None s1)"

definition on_stdout_data :: "string \<Rightarrow> session \<Rightarrow> session" where
  "on_stdout_data d s =
     (case append_ring (stdoutRing s) d of
        (r, ds) \<Rightarrow> s\<lparr>stdoutRing := r, out := out s @ [EmitData d] @ notify ds\<rparr>)"

definition on_stdout_close :: "session \<Rightarrow> error + session" where
  "on_stdout_close s =
     (case close_ring (stdoutRing s) of
        (r, ds) \<Rightarrow>
          handleExit None (s\<lparr>stdoutRing := r, out := out s @ notify ds, stdoutClosed := True\<rparr>))"

definition on_stderr_data :: "string \<Rightarrow> session \<Rightarrow> session" where
  "on_stderr_data d s =
     (case append_ring (stderrRing s) d of
        (r, ds) \<Rightarrow> s\<lparr>stderrRing := r, out := out s @ notify ds\<rparr>)"

definition on_stderr_close :: "session \<Rightarrow> error + session" where
  "on_stderr_close s =
     (case close_ring (stderrRing s) of
        (r, ds) \<Rightarrow>
          handleExit None (s\<lparr>stderrRing := r, out := out s @ notify ds, stderrClosed := True\<rparr>))"

definition timeout_msg :: "int \<Rightarrow> string" where
  "timeout_msg t = ''process ran into a timeout ('' @ showInt t @ ''s)''"

definition on_timeout :: "session \<Rightarrow> session" where
  "on_timeout s =
     (let s1 = emitEnd (Some (timeout_msg (the (timeout (self s)))))
                 (get_ring (stdoutRing s)) (get_ring (stderrRing s))
                 (s\<lparr>timerPending := False\<rparr>)
      in s1\<lparr>out := out s1 @ [ProcKill None]\<rparr>)"

definition kill :: "string option \<Rightarrow> session \<Rightarrow> session" where
  "kill signal s =
     (if \<not> childProc (self s) then
        s\<lparr>out := out s @ [LogWarn ''No running child process, cannot send signal'']\<rparr>
      else
        s\<lparr>out := out s @
             [ProcKill (Some (if signal \<noteq> None \<and> signal \<noteq> Some [] then the signal
                              else ''SIGKILL''))]\<rparr>)"

text \<open>
  One notification is handled to completion before the next.  The stdout handlers are
  installed only when \<^verbatim>\<open>options.captureStdout\<close> holds, and the timer exists only while
  it is pending.
\<close>

fun step :: "session \<Rightarrow> event \<Rightarrow> error + session" where
  "step s (ProcError e) = endCB (Some e) None s"
| "step s (Exit code signal) = on_exit code signal s"
| "step s (StdoutData d) = Inr (if captureStdout (self s) then on_stdout_data d s else s)"
| "step s StdoutClose = (if captureStdout (self s) then on_stdout_close s else Inr s)"
| "step s (StderrData d) = Inr (on_stderr_data d s)"
| "step s StderrClose = on_stderr_close s"
| "step s Timeout = Inr (if timerPending s then on_timeout s else s)"
| "step s (UserKill signal) = Inr (kill signal s)"
| "step s UserOnStderr =
     Inr (s\<lparr>self := (self s)\<lparr>stderrListeners := Suc (stderrListeners (self s))\<rparr>\<rparr>)"

text \<open>A handler that throws ends the run of events here, with the error.\<close>

fun steps :: "session \<Rightarrow> event list \<Rightarrow> error + session" where
  "steps s [] = Inr s"
| "steps s (ev # evs) = (case step s ev of Inl e \<Rightarrow> Inl e | Inr s1 \<Rightarrow> steps s1 evs)"

text \<open>
  \<^verbatim>\<open>run\<close> throws when there is no command and otherwise calls \<^verbatim>\<open>_spawnChildProcess\<close>,
  modelled with \<^verbatim>\<open>processCB\<close> inlined in the order the statements execute: the rings are created with \<^verbatim>\<open>this.options.stdoutLines\<close> (the options object
  passed down has no \<^verbatim>\<open>stdoutLines\<close> key), the handlers are installed, then
  \<^verbatim>\<open>processCB\<close> stores the process, emits \<^verbatim>\<open>'start'\<close>, arms the timer when
  \<^verbatim>\<open>options.timeout\<close> is truthy, and registers the stderr callback when the emitter has a
  \<^verbatim>\<open>'stderr'\<close> listener at that moment.
\<close>

definition spawnChildProcess :: "cmd \<Rightarrow> session" where
  "spawnChildProcess c =
     (let maxLines = stdoutLines c;
          registered = (if stderrListeners c \<noteq> 0
                        then callback_ring (linesRing maxLines) 0
                        else (linesRing maxLines, []))
      in \<lparr>self = c\<lparr>childProc := True\<rparr>,
          ended = False,
          timerPending = (case timeout c of Some t \<Rightarrow> t \<noteq> 0 | None \<Rightarrow> False),
          stdoutRing = linesRing maxLines,
          stdoutClosed = False,
          stderrRing = fst registered,
          stderrClosed = False,
          exitError = None,
          processExited = False,
          out = [EmitStart (command c) (args c)] @ notify (snd registered)\<rparr>)"

definition run :: "cmd \<Rightarrow> error + session" where
  "run c = (if command c = [] then Inl NoCommand else Inr (spawnChildProcess c))"

text \<open>
  The constructor: defaults for the options, a fresh emitter (no listeners), then
  \<^verbatim>\<open>return this.run()\<close>.
\<close>

record options =
  opt_captureStdout :: "bool option"
  opt_stdoutLines :: "int option"
  opt_timeout :: "int option"

definition ChildProcessCommand :: "string \<Rightarrow> string list \<Rightarrow> options \<Rightarrow> error + session" where
  "ChildProcessCommand command0 args0 opts =
     run \<lparr>command = command0,
          args = args0,
          captureStdout = (opt_captureStdout opts \<noteq> Some False),
          stdoutLines = (case opt_stdoutLines opts of Some n \<Rightarrow> n | None \<Rightarrow> 0),
          timeout = opt_timeout opts,
          childProc = False,
          stderrListeners = 0\<rparr>"

section \<open>Notions used to state the properties\<close>


text \<open>
  A sequence of chunks cuts a CRLF pair when the text before some chunk ends in a
  carriage return and that chunk begins with a line feed.
\<close>

fun straddles :: "string \<Rightarrow> string list \<Rightarrow> bool" where
  "straddles t [] = False"
| "straddles t (d # ds) =
     ((t \<noteq> [] \<and> last t = CR \<and> d \<noteq> [] \<and> hd d = LF) \<or> straddles (t @ d) ds)"


fun is_final :: "effect \<Rightarrow> bool" where
  "is_final (EmitError e a b) = True"
| "is_final (EmitEnd a b) = True"
| "is_final (EndCallback e a b) = True"
| "is_final x = False"

fun is_gate :: "effect \<Rightarrow> bool" where
  "is_gate (CallEndCB e) = True"
| "is_gate x = False"

fun is_stderr_emit :: "effect \<Rightarrow> bool" where
  "is_stderr_emit (EmitStderr l) = True"
| "is_stderr_emit x = False"

text \<open>Classes of events.\<close>

fun is_proc_error :: "event \<Rightarrow> bool" where
  "is_proc_error (ProcError e) = True"
| "is_proc_error x = False"

fun is_exit :: "event \<Rightarrow> bool" where
  "is_exit (Exit code signal) = True"
| "is_exit x = False"

definition no_proc_error :: "event list \<Rightarrow> bool" where
  "no_proc_error evs = (filter is_proc_error evs = [])"

text \<open>
  The signals the completion gate waits for, and the reports of them in a sequence of
  events, in order of arrival.  The stdout signal is required only with stdout capture.
\<close>

datatype sig = SigExited | SigStdoutClosed | SigStderrClosed

fun sig_of :: "event \<Rightarrow> sig list" where
  "sig_of (Exit code signal) = [SigExited]"
| "sig_of StdoutClose = [SigStdoutClosed]"
| "sig_of StderrClose = [SigStderrClosed]"
| "sig_of x = []"

definition required :: "bool \<Rightarrow> sig list" where
  "required capture = [SigExited, SigStderrClosed] @ (if capture then [SigStdoutClosed] else [])"

definition reported :: "bool \<Rightarrow> event list \<Rightarrow> sig list" where
  "reported capture evs = filter (\<lambda>g. g \<in> set (required capture)) (concat (map sig_of evs))"

definition all_reported :: "bool \<Rightarrow> event list \<Rightarrow> bool" where
  "all_reported capture evs = (filter (\<lambda>g. g \<notin> set (reported capture evs)) (required capture) = [])"

text \<open>
  The two entries \<^verbatim>\<open>emitEnd\<close> appends: the terminal notification and the call of the
  completion callback with the same arguments.
\<close>

definition final_pair :: "string option \<Rightarrow> string \<Rightarrow> string \<Rightarrow> effect list" where
  "final_pair err stdout stderr =
     [case err of Some e \<Rightarrow> EmitError e stdout stderr | None \<Rightarrow> EmitEnd stdout stderr,
      EndCallback err stdout stderr]"

text \<open>An event that reports a completion signal to a handler that is installed.\<close>

definition handled :: "session \<Rightarrow> event \<Rightarrow> bool" where
  "handled s ev =
     (is_exit ev \<or> ev = StderrClose \<or> (ev = StdoutClose \<and> captureStdout (self s)))"

text \<open>The error \<^verbatim>\<open>endCB\<close> passes on, after the message has been extended.\<close>

definition augmented :: "string option \<Rightarrow> ring \<Rightarrow> string option" where
  "augmented err stderrR =
     (case err of
        Some e \<Rightarrow> Some (if matches ''exited with code'' e
                        then e @ '': '' @ extractError (get_ring stderrR) else e)
      | None \<Rightarrow> None)"

text \<open>The value of \<^verbatim>\<open>exitError\<close> after the assignment at the start of \<^verbatim>\<open>handleExit\<close>.\<close>

definition stored :: "string option \<Rightarrow> session \<Rightarrow> string option" where
  "stored err s = (case err of Some e \<Rightarrow> Some e | None \<Rightarrow> exitError s)"


text \<open>
  An exit notification reports an error when \<^verbatim>\<open>signal\<close> or \<^verbatim>\<open>code\<close> is truthy; no other
  report carries one.
\<close>

definition carries_error :: "event \<Rightarrow> bool" where
  "carries_error ev =
     (case ev of
        Exit code signal \<Rightarrow>
          (signal \<noteq> None \<and> signal \<noteq> Some []) \<or> (code \<noteq> None \<and> code \<noteq> Some 0)
      | _ \<Rightarrow> False)"

text \<open>
  An unbounded, open ring holds the text \<open>t\<close> appended so far: its completed lines
  followed by the pending one are the lines of \<open>t\<close>.
\<close>

definition tracks :: "ring \<Rightarrow> string \<Rightarrow> bool" where
  "tracks r t =
     (\<not> closed r \<and> \<not> maxl r > -1 \<and>
      (case current r of
         None \<Rightarrow> lines r = [] \<and> t = []
       | Some c \<Rightarrow> lines r @ [c] = split_nl t))"

text \<open>Concrete inputs used in the examples below.\<close>

definition default_options :: options where
  "default_options = \<lparr>opt_captureStdout = None, opt_stdoutLines = None, opt_timeout = None\<rparr>"

definition demo_cmd :: cmd where
  "demo_cmd = \<lparr>command = ''cmd'', args = [], captureStdout = True, stdoutLines = 0,
                timeout = None, childProc = False, stderrListeners = 0\<rparr>"

definition timeout_options :: options where
  "timeout_options = \<lparr>opt_captureStdout = None, opt_stdoutLines = None, opt_timeout = Some 1\<rparr>"

definition timeout_cmd :: cmd where
  "timeout_cmd = \<lparr>command = ''cmd'', args = [], captureStdout = True, stdoutLines = 0,
                   timeout = Some 1, childProc = False, stderrListeners = 0\<rparr>"

text \<open>A run with a timeout of one second that has received some stdout data.\<close>

definition timeout_state :: session where
  "timeout_state = projr (steps (spawnChildProcess timeout_cmd) [StdoutData ''partial''])"

text \<open>A run whose process has exited with code 2 while both streams are still open.\<close>

definition exited_state :: session where
  "exited_state = projr (steps (spawnChildProcess demo_cmd) [Exit (Some 2) None])"

text \<open>A run whose streams have closed, stderr having carried a progress line and an error.\<close>

definition streams_closed_state :: session where
  "streams_closed_state =
     projr (steps (spawnChildProcess demo_cmd)
              [StderrData ''  progress\<newline>real error'', StderrClose, StdoutClose])"

lemmas ring_eval = linesRing_def callback_ring_def append_ring_def close_ring_def get_ring_def
  emit_ring_def splice_excess_def received_def Let_def CR_def LF_def

lemmas session_eval = ChildProcessCommand_def run_def spawnChildProcess_def on_exit_def
  on_stdout_data_def on_stdout_close_def on_stderr_data_def on_stderr_close_def on_timeout_def
  kill_def handleExit_def gate_open_def endCB_def emitEnd_def notify_def timeout_msg_def
  extractError_def noise_def default_options_def demo_cmd_def timeout_options_def
  timeout_cmd_def timeout_state_def exited_state_def streams_closed_state_def

section \<open>The line ring buffer: retained lines, observers, round trip\<close>

lemma split_nl_nonempty: "split_nl s \<noteq> []"
  by (induction s rule: split_nl.induct) (auto split: list.splits)

lemma splice_excess_length: "m > -1 \<Longrightarrow> int (length (splice_excess m h)) \<le> m"
  by (auto simp: splice_excess_def)

lemma splice_excess_unbounded: "\<not> m > -1 \<Longrightarrow> splice_excess m h = h"
  by (simp add: splice_excess_def)

lemma splice_excess_append:
  "splice_excess m (splice_excess m h @ xs) = splice_excess m (h @ xs)"
  by (auto simp: splice_excess_def add.commute)

lemma shift_is_splice:
  assumes "m > -1" "int (length ls) \<le> m"
  shows "(if m > -1 \<and> int (length (ls @ [c])) > m then tl (ls @ [c]) else ls @ [c])
           = splice_excess m (ls @ [c])"
proof (cases "int (length (ls @ [c])) > m")
  case True
  with assms have "nat m = length ls" by simp
  with True assms show ?thesis by (cases ls) (simp_all add: splice_excess_def)
next
  case False
  then show ?thesis by (simp add: splice_excess_def)
qed

lemma received_Nil: "received x [] = []"
  by (simp add: received_def)

lemma ring_run_Cons:
  "fst (ring_run r (op # ops)) = fst (ring_run (fst (ring_step r op)) ops)"
  "snd (ring_run r (op # ops))
     = snd (ring_step r op) @ snd (ring_run (fst (ring_step r op)) ops)"
  by (simp_all split: prod.splits)

lemma received_append: "received x (ds1 @ ds2) = received x ds1 @ received x ds2"
  by (simp add: received_def)

lemma received_emit:
  "received x (emit_ring r l) = replicate (length (filter (\<lambda>cb. cb = x) (cbs r))) l"
  by (induction "cbs r" arbitrary: r)
     (simp_all add: received_def emit_ring_def filter_map comp_def map_replicate_const)

lemma received_emits:
  "received x (concat (map (emit_ring r) E))
     = concat (map (replicate (length (filter (\<lambda>cb. cb = x) (cbs r)))) E)"
  by (induction E) (simp_all add: received_append received_emit received_Nil)

lemma received_replay:
  "received x (map (\<lambda>l. (q, l)) ls) = (if q = x then ls else [])"
  by (induction ls) (auto simp: received_def)

lemma concat_replicate_1: "concat (map (replicate (Suc 0)) E) = E"
  by (induction E) simp_all

lemma concat_replicate_0: "concat (map (replicate 0) E) = []"
  by (induction E) simp_all

lemma append_ring_fields:
  "maxl (fst (append_ring r d)) = maxl r"
  "cbs (fst (append_ring r d)) = cbs r"
  "closed (fst (append_ring r d)) = closed r"
  by (simp_all add: append_ring_def Let_def split: option.splits)

lemma close_ring_fields:
  "maxl (fst (close_ring r)) = maxl r"
  "cbs (fst (close_ring r)) = cbs r"
  "closed (fst (close_ring r))"
  by (simp_all add: close_ring_def Let_def split: option.splits)

lemma append_ring_emits:
  assumes "lines r = splice_excess (maxl r) h"
  shows "\<exists>E. lines (fst (append_ring r d)) = splice_excess (maxl r) (h @ E)
           \<and> snd (append_ring r d) = concat (map (emit_ring r) E)"
proof (cases "closed r \<or> d = [] \<or> length (split_nl d) = 1")
  case True
  then have "lines (fst (append_ring r d)) = lines r" "snd (append_ring r d) = []"
    by (auto simp: append_ring_def Let_def split: option.splits)
  with assms show ?thesis by (intro exI [of _ "[]"]) simp
next
  case False
  define E where "E = (case current r of Some c \<Rightarrow> [c @ hd (split_nl d)] | None \<Rightarrow> [])
                    @ butlast (case current r of Some c \<Rightarrow> tl (split_nl d) | None \<Rightarrow> split_nl d)"
  from False have "lines (fst (append_ring r d)) = splice_excess (maxl r) (lines r @ E)"
    and "snd (append_ring r d) = concat (map (emit_ring r) E)"
    by (simp_all add: append_ring_def Let_def E_def)
  with assms show ?thesis
    by (intro exI [of _ E]) (simp add: splice_excess_append)
qed

lemma close_ring_emits:
  assumes "lines r = splice_excess (maxl r) h"
  shows "\<exists>E. lines (fst (close_ring r)) = splice_excess (maxl r) (h @ E)
           \<and> snd (close_ring r) = concat (map (emit_ring r) E)"
proof (cases "closed r \<or> current r = None")
  case True
  then have "lines (fst (close_ring r)) = lines r" "snd (close_ring r) = []"
    by (auto simp: close_ring_def Let_def split: option.splits)
  with assms show ?thesis by (intro exI [of _ "[]"]) simp
next
  case False
  then obtain c where c: "current r = Some c" and nc: "\<not> closed r" by auto
  have pushed: "(if maxl r > -1 \<and> int (length (lines r @ [c])) > maxl r
                 then tl (lines r @ [c]) else lines r @ [c])
                = splice_excess (maxl r) (lines r @ [c])"
  proof (cases "maxl r > -1")
    case True
    with assms have "int (length (lines r)) \<le> maxl r"
      by (simp add: splice_excess_length)
    with True show ?thesis by (rule shift_is_splice)
  next
    case False
    then show ?thesis by (simp add: splice_excess_def)
  qed
  from c nc have "lines (fst (close_ring r)) =
      (if maxl r > -1 \<and> int (length (lines r @ [c])) > maxl r
       then tl (lines r @ [c]) else lines r @ [c])"
    and "snd (close_ring r) = concat (map (emit_ring r) [c])"
    by (simp_all add: close_ring_def Let_def)
  with pushed assms show ?thesis
    by (intro exI [of _ "[c]"]) (simp add: splice_excess_append)
qed

lemma ring_step_emits:
  assumes "lines r = splice_excess (maxl r) h"
  shows "\<exists>E. lines (fst (ring_step r op)) = splice_excess (maxl r) (h @ E)
           \<and> maxl (fst (ring_step r op)) = maxl r
           \<and> (\<forall>x. op \<noteq> Callback x \<longrightarrow>
                 received x (snd (ring_step r op))
                   = concat (map (replicate (length (filter (\<lambda>cb. cb = x) (cbs r)))) E)
                 \<and> length (filter (\<lambda>cb. cb = x) (cbs (fst (ring_step r op))))
                   = length (filter (\<lambda>cb. cb = x) (cbs r)))"
proof (cases op)
  case (Append d)
  from append_ring_emits [OF assms, of d] obtain E where
    "lines (fst (append_ring r d)) = splice_excess (maxl r) (h @ E)"
    "snd (append_ring r d) = concat (map (emit_ring r) E)" by blast
  with Append show ?thesis
    by (intro exI [of _ E]) (simp add: append_ring_fields received_emits)
next
  case Close
  from close_ring_emits [OF assms] obtain E where
    "lines (fst (close_ring r)) = splice_excess (maxl r) (h @ E)"
    "snd (close_ring r) = concat (map (emit_ring r) E)" by blast
  with Close show ?thesis
    by (intro exI [of _ E]) (simp add: close_ring_fields received_emits)
next
  case (Callback q)
  with assms show ?thesis
    by (intro exI [of _ "[]"]) (simp add: callback_ring_def received_replay)
qed

lemma ring_run_emits:
  assumes "lines r = splice_excess (maxl r) h"
  shows "\<exists>E. lines (fst (ring_run r ops)) = splice_excess (maxl r) (h @ E)
           \<and> maxl (fst (ring_run r ops)) = maxl r
           \<and> (\<forall>x. Callback x \<notin> set ops \<longrightarrow>
                 received x (snd (ring_run r ops))
                   = concat (map (replicate (length (filter (\<lambda>cb. cb = x) (cbs r)))) E)
                 \<and> length (filter (\<lambda>cb. cb = x) (cbs (fst (ring_run r ops))))
                   = length (filter (\<lambda>cb. cb = x) (cbs r)))"
  using assms
proof (induction ops arbitrary: r h)
  case Nil
  then show ?case by (intro exI [of _ "[]"]) (simp add: received_Nil)
next
  case (Cons op ops)
  from ring_step_emits [OF Cons.prems, of op] obtain E1 where
    l1: "lines (fst (ring_step r op)) = splice_excess (maxl r) (h @ E1)"
    and m1: "maxl (fst (ring_step r op)) = maxl r"
    and r1: "\<And>x. op \<noteq> Callback x \<Longrightarrow>
                 received x (snd (ring_step r op))
                   = concat (map (replicate (length (filter (\<lambda>cb. cb = x) (cbs r)))) E1)
                 \<and> length (filter (\<lambda>cb. cb = x) (cbs (fst (ring_step r op))))
                   = length (filter (\<lambda>cb. cb = x) (cbs r))"
    by blast
  from l1 m1 have "lines (fst (ring_step r op))
      = splice_excess (maxl (fst (ring_step r op))) (h @ E1)" by simp
  from Cons.IH [OF this, unfolded m1] obtain E2 where
    l2: "lines (fst (ring_run (fst (ring_step r op)) ops)) = splice_excess (maxl r) ((h @ E1) @ E2)"
    and m2: "maxl (fst (ring_run (fst (ring_step r op)) ops)) = maxl r"
    and r2: "\<And>x. Callback x \<notin> set ops \<Longrightarrow>
                 received x (snd (ring_run (fst (ring_step r op)) ops))
                   = concat (map (replicate (length (filter (\<lambda>cb. cb = x)
                        (cbs (fst (ring_step r op)))))) E2)
                 \<and> length (filter (\<lambda>cb. cb = x) (cbs (fst (ring_run (fst (ring_step r op)) ops))))
                   = length (filter (\<lambda>cb. cb = x) (cbs (fst (ring_step r op))))"
    by blast
  show ?case
  proof (intro exI [of _ "E1 @ E2"] conjI allI impI)
    show "lines (fst (ring_run r (op # ops))) = splice_excess (maxl r) (h @ E1 @ E2)"
      using l2 by (simp only: ring_run_Cons append_assoc)
    show "maxl (fst (ring_run r (op # ops))) = maxl r"
      using m2 by (simp only: ring_run_Cons)
  next
    fix x assume "Callback x \<notin> set (op # ops)"
    then have a: "op \<noteq> Callback x" and b: "Callback x \<notin> set ops" by auto
    show "received x (snd (ring_run r (op # ops)))
            = concat (map (replicate (length (filter (\<lambda>cb. cb = x) (cbs r)))) (E1 @ E2))"
      using r1 [OF a] r2 [OF b] by (simp add: received_append ring_run_Cons del: ring_run.simps)
    show "length (filter (\<lambda>cb. cb = x) (cbs (fst (ring_run r (op # ops)))))
            = length (filter (\<lambda>cb. cb = x) (cbs r))"
      using r1 [OF a] r2 [OF b] by (simp add: ring_run_Cons del: ring_run.simps)
  qed
qed

lemma ring_run_append:
  "fst (ring_run r (xs @ ys)) = fst (ring_run (fst (ring_run r xs)) ys)"
  "snd (ring_run r (xs @ ys))
     = snd (ring_run r xs) @ snd (ring_run (fst (ring_run r xs)) ys)"
  by (induction xs arbitrary: r) (simp_all add: ring_run_Cons del: ring_run.simps(2))

lemma splice_excess_drop:
  "m > -1 \<Longrightarrow> splice_excess m h = drop (length h - nat m) h"
  by (simp add: splice_excess_def)

text \<open>The shape of a lifetime with a first observer and a late one.\<close>

lemma two_observers:
  assumes neq: "late \<noteq> first"
    and ops1: "Callback first \<notin> set ops1" "Callback late \<notin> set ops1"
    and ops2: "Callback first \<notin> set ops2" "Callback late \<notin> set ops2"
  shows "\<exists>E1 E2.
           lines (fst (ring_run (linesRing K) (Callback first # ops1))) = splice_excess (K - 1) E1
         \<and> received first (snd (ring_run (linesRing K) (Callback first # ops1))) = E1
         \<and> received first
              (snd (ring_run (linesRing K) (Callback first # ops1 @ Callback late # ops2)))
             = E1 @ E2
         \<and> received late
              (snd (ring_run (linesRing K) (Callback first # ops1 @ Callback late # ops2)))
             = splice_excess (K - 1) E1 @ E2"
proof -
  define r0 where "r0 = fst (ring_step (linesRing K) (Callback first))"
  have r0: "lines r0 = []" "maxl r0 = K - 1" "cbs r0 = [first]"
    "snd (ring_step (linesRing K) (Callback first)) = []"
    by (simp_all add: r0_def callback_ring_def linesRing_def)
  have "lines r0 = splice_excess (maxl r0) []"
    by (simp add: r0 splice_excess_def)
  from ring_run_emits [OF this, of ops1] obtain E1 where
    l1: "lines (fst (ring_run r0 ops1)) = splice_excess (K - 1) E1"
    and m1: "maxl (fst (ring_run r0 ops1)) = K - 1"
    and x1: "\<And>x. Callback x \<notin> set ops1 \<Longrightarrow>
               received x (snd (ring_run r0 ops1))
                 = concat (map (replicate (length (filter (\<lambda>cb. cb = x) (cbs r0)))) E1)
               \<and> length (filter (\<lambda>cb. cb = x) (cbs (fst (ring_run r0 ops1))))
                 = length (filter (\<lambda>cb. cb = x) (cbs r0))"
    by (auto simp: r0)
  define r1 where "r1 = fst (ring_run r0 ops1)"
  define r2 where "r2 = fst (ring_step r1 (Callback late))"
  have f1: "received first (snd (ring_run r0 ops1)) = E1"
    and c1: "length (filter (\<lambda>cb. cb = first) (cbs r1)) = 1"
    using x1 [OF ops1(1)] by (simp_all add: r0 r1_def concat_replicate_1)
  have f2: "received late (snd (ring_run r0 ops1)) = []"
    and c2: "length (filter (\<lambda>cb. cb = late) (cbs r1)) = 0"
    using x1 [OF ops1(2)] neq by (simp_all add: r0 r1_def concat_replicate_0)
  have r2: "lines r2 = lines r1" "maxl r2 = K - 1" "cbs r2 = cbs r1 @ [late]"
    "snd (ring_step r1 (Callback late)) = map (\<lambda>l. (late, l)) (lines r1)"
    using m1 by (simp_all add: r2_def r1_def callback_ring_def)
  have "lines r2 = splice_excess (maxl r2) E1"
    using l1 by (simp add: r2 r1_def)
  from ring_run_emits [OF this, of ops2] obtain E2 where
    x2: "\<And>x. Callback x \<notin> set ops2 \<Longrightarrow>
               received x (snd (ring_run r2 ops2))
                 = concat (map (replicate (length (filter (\<lambda>cb. cb = x) (cbs r2)))) E2)"
    by blast
  have g1: "received first (snd (ring_run r2 ops2)) = E2"
    using x2 [OF ops2(1)] c1 neq by (simp add: r2 concat_replicate_1)
  have g2: "received late (snd (ring_run r2 ops2)) = E2"
    using x2 [OF ops2(2)] c2 by (simp add: r2 concat_replicate_1)
  have whole: "snd (ring_run (linesRing K) (Callback first # ops1 @ Callback late # ops2))
      = snd (ring_run r0 ops1) @ map (\<lambda>l. (late, l)) (lines r1) @ snd (ring_run r2 ops2)"
    by (simp add: ring_run_Cons ring_run_append r0 r2 r0_def [symmetric] r1_def [symmetric]
          r2_def [symmetric] del: ring_run.simps ring_step.simps)
  have part: "snd (ring_run (linesRing K) (Callback first # ops1)) = snd (ring_run r0 ops1)"
    "fst (ring_run (linesRing K) (Callback first # ops1)) = r1"
    by (simp_all add: ring_run_Cons r0 r0_def [symmetric] r1_def
          del: ring_run.simps ring_step.simps)
  show ?thesis
    using neq l1
    by (intro exI [of _ E1] exI [of _ E2])
       (simp add: whole part received_append received_replay f1 f2 g1 g2 r1_def [symmetric]
          del: ring_run.simps)
qed

text \<open>
  Claim C4, as amended.  An observer registered at any point of a ring's lifetime is
  called exactly once, in emission order, for each line retained at the moment of
  registration and then for each line emitted afterwards.  The lines the ring has emitted
  are those seen by an observer \<open>first\<close> registered at construction.  For an unbounded
  ring (capacity at most 0) the late observer sees every line ever emitted; for capacity
  \<open>K > 0\<close> the replay covers only the last \<open>K - 1\<close> lines emitted before the
  registration, so lines evicted earlier are not delivered to it.
\<close>

theorem late_observer_replay:
  assumes "late \<noteq> first"
    and "Callback first \<notin> set ops1" "Callback late \<notin> set ops1"
    and "Callback first \<notin> set ops2" "Callback late \<notin> set ops2"
  shows
    "(case ring_run (linesRing K) (Callback first # ops1) of (r1, ds1) \<Rightarrow>
      case ring_run (linesRing K) (Callback first # ops1 @ Callback late # ops2) of (r, ds) \<Rightarrow>
        received late ds = lines r1 @ drop (length (received first ds1)) (received first ds)
      \<and> take (length (received first ds1)) (received first ds) = received first ds1
      \<and> (K \<le> 0 \<longrightarrow> received late ds = received first ds)
      \<and> (K > 0 \<longrightarrow> received late ds
            = drop (length (received first ds1) - nat (K - 1)) (received first ds)))"
proof -
  from two_observers [OF assms, of K] obtain E1 E2 where
    "lines (fst (ring_run (linesRing K) (Callback first # ops1))) = splice_excess (K - 1) E1"
    "received first (snd (ring_run (linesRing K) (Callback first # ops1))) = E1"
    "received first
       (snd (ring_run (linesRing K) (Callback first # ops1 @ Callback late # ops2))) = E1 @ E2"
    "received late
       (snd (ring_run (linesRing K) (Callback first # ops1 @ Callback late # ops2)))
      = splice_excess (K - 1) E1 @ E2"
    by blast
  then show ?thesis
    by (simp add: case_prod_beta splice_excess_drop splice_excess_unbounded
          del: ring_run.simps)
qed

lemma ring_step_closed_current:
  "(closed r \<longrightarrow> current r = None) \<Longrightarrow>
   closed (fst (ring_step r op)) \<longrightarrow> current (fst (ring_step r op)) = None"
  by (cases op)
     (auto simp: append_ring_def close_ring_def callback_ring_def Let_def split: option.splits)

lemma ring_run_closed_current:
  "(closed r \<longrightarrow> current r = None) \<Longrightarrow>
   closed (fst (ring_run r ops)) \<longrightarrow> current (fst (ring_run r ops)) = None"
proof (induction ops arbitrary: r)
  case Nil
  then show ?case by simp
next
  case (Cons op ops)
  from Cons.IH [OF ring_step_closed_current [OF Cons.prems, of op]]
  show ?case by (simp only: ring_run_Cons)
qed

lemma ring_run_snoc_Close: "closed (fst (ring_run r (ops @ [Close])))"
  by (simp add: ring_run_append ring_run_Cons close_ring_fields del: ring_run.simps(2))

text \<open>
  Claim C3, as amended.  For a ring of capacity \<open>K > 0\<close> and any sequence of appends
  followed by \<^verbatim>\<open>close()\<close>, at most \<open>K - 1\<close> lines (hence at most \<open>K\<close>) are retained
  and they are exactly the last \<open>K - 1\<close> lines emitted, oldest evicted first, where the
  line flushed by \<^verbatim>\<open>close()\<close> counts as emitted; \<^verbatim>\<open>get()\<close> is their newline-join.
\<close>

theorem ring_retains_last_lines:
  assumes "K > 0"
  shows "(case ring_run (linesRing K) (Callback probe # map Append chunks @ [Close]) of
            (r, ds) \<Rightarrow>
              int (length (lines r)) \<le> K - 1
            \<and> lines r = drop (length (received probe ds) - nat (K - 1)) (received probe ds)
            \<and> current r = None
            \<and> get_ring r = join_nl (lines r))"
proof -
  define ops where "ops = map Append chunks @ [Close]"
  define r0 where "r0 = fst (ring_step (linesRing K) (Callback probe))"
  define r where "r = fst (ring_run r0 ops)"
  have r0: "lines r0 = []" "maxl r0 = K - 1" "cbs r0 = [probe]" "\<not> closed r0"
    "snd (ring_step (linesRing K) (Callback probe)) = []"
    by (simp_all add: r0_def callback_ring_def linesRing_def)
  have no: "Callback probe \<notin> set ops"
    by (auto simp: ops_def)
  have "lines r0 = splice_excess (maxl r0) []"
    by (simp add: r0 splice_excess_def)
  from ring_run_emits [OF this, of ops] no obtain E where
    l: "lines r = splice_excess (K - 1) E"
    and e: "received probe (snd (ring_run r0 ops)) = E"
    by (auto simp: r0 r_def concat_replicate_1)
  have "closed r"
    unfolding r_def ops_def by (rule ring_run_snoc_Close)
  moreover have "closed r \<longrightarrow> current r = None"
    unfolding r_def by (rule ring_run_closed_current) (simp add: r0)
  ultimately have c: "current r = None" by simp
  have whole: "fst (ring_run (linesRing K) (Callback probe # ops)) = r"
    "snd (ring_run (linesRing K) (Callback probe # ops)) = snd (ring_run r0 ops)"
    by (simp_all add: ring_run_Cons r0 r0_def [symmetric] r_def
          del: ring_run.simps ring_step.simps)
  from assms have "int (length (splice_excess (K - 1) E)) \<le> K - 1"
    by (intro splice_excess_length) simp
  with assms l e c whole show ?thesis
    by (simp add: case_prod_beta ops_def [symmetric] splice_excess_drop get_ring_def
          del: ring_run.simps)
qed

lemma CR_neq_LF: "CR \<noteq> LF"
  by (simp add: CR_def LF_def)

lemma split_nl_append:
  assumes "\<not> (a \<noteq> [] \<and> last a = CR \<and> b \<noteq> [] \<and> hd b = LF)"
  shows "split_nl (a @ b)
           = butlast (split_nl a) @ [last (split_nl a) @ hd (split_nl b)] @ tl (split_nl b)"
  using assms
proof (induction a rule: split_nl.induct)
  case 1
  then show ?case using split_nl_nonempty [of b] by simp
next
  case (2 c cs)
  show ?case
  proof (cases "c = CR")
    case True
    show ?thesis
    proof (cases cs)
      case Nil
      with True "2.prems" show ?thesis
        using split_nl_nonempty [of b] CR_neq_LF by (cases b) auto
    next
      case (Cons d ds)
      show ?thesis
      proof (cases "d = LF")
        case dLF: True
        have "\<not> (ds \<noteq> [] \<and> last ds = CR \<and> b \<noteq> [] \<and> hd b = LF)"
          using "2.prems" Cons by auto
        from "2.IH"(2) [OF True Cons dLF this] True Cons dLF show ?thesis
          using split_nl_nonempty [of ds] by simp
      next
        case dn: False
        have "\<not> (cs \<noteq> [] \<and> last cs = CR \<and> b \<noteq> [] \<and> hd b = LF)"
          using "2.prems" Cons by auto
        from "2.IH"(3) [OF True Cons dn this] True Cons dn show ?thesis
          using split_nl_nonempty [of cs] by simp
      qed
    qed
  next
    case nCR: False
    have sub: "\<not> (cs \<noteq> [] \<and> last cs = CR \<and> b \<noteq> [] \<and> hd b = LF)"
      using "2.prems" nCR by (cases cs) auto
    show ?thesis
    proof (cases "c = LF")
      case True
      from "2.IH"(4) [OF nCR True sub] nCR True show ?thesis
        using split_nl_nonempty [of cs] by simp
    next
      case False
      from "2.IH"(5) [OF nCR False sub] nCR False show ?thesis
        using split_nl_nonempty [of cs] split_nl_nonempty [of "cs @ b"]
        by (cases "split_nl cs"; cases "tl (split_nl cs)") (auto split: list.splits)
    qed
  qed
qed

lemma tracks_append:
  assumes "tracks r t" "\<not> (t \<noteq> [] \<and> last t = CR \<and> d \<noteq> [] \<and> hd d = LF)"
  shows "tracks (fst (append_ring r d)) (t @ d)"
proof (cases "d = []")
  case True
  with assms show ?thesis by (simp add: append_ring_def tracks_def)
next
  case False
  note sp = split_nl_append [OF assms(2)]
  have ne: "split_nl d \<noteq> []" by (rule split_nl_nonempty)
  show ?thesis
  proof (cases "current r")
    case None
    with assms(1) have "t = []" "lines r = []" "\<not> closed r" "\<not> maxl r > -1"
      by (simp_all add: tracks_def)
    with None False ne show ?thesis
      by (cases "split_nl d")
         (auto simp: append_ring_def tracks_def Let_def splice_excess_def)
  next
    case (Some c)
    with assms(1) have t: "lines r @ [c] = split_nl t" "\<not> closed r" "\<not> maxl r > -1"
      by (simp_all add: tracks_def)
    from t(1) have bl: "butlast (split_nl t) = lines r" "last (split_nl t) = c"
      by (metis butlast_snoc, metis last_snoc)
    show ?thesis
    proof (cases "length (split_nl d) = 1")
      case True
      then have "tl (split_nl d) = []" by (cases "split_nl d") simp_all
      with Some t False True sp bl show ?thesis
        by (simp add: append_ring_def tracks_def Let_def)
    next
      case long: False
      with ne have "tl (split_nl d) \<noteq> []" by (cases "split_nl d") simp_all
      then have "butlast (tl (split_nl d)) @ [last (tl (split_nl d))] = tl (split_nl d)"
        by simp
      with Some t False long sp bl show ?thesis
        by (simp add: append_ring_def tracks_def Let_def splice_excess_def)
    qed
  qed
qed

lemma tracks_appends:
  assumes "tracks r t" "\<not> straddles t chunks"
  shows "tracks (fst (ring_run r (map Append chunks))) (t @ concat chunks)"
  using assms
proof (induction chunks arbitrary: r t)
  case Nil
  then show ?case by simp
next
  case (Cons d ds)
  from Cons.prems have a: "\<not> (t \<noteq> [] \<and> last t = CR \<and> d \<noteq> [] \<and> hd d = LF)"
    and b: "\<not> straddles (t @ d) ds" by auto
  from Cons.IH [OF tracks_append [OF Cons.prems(1) a] b]
  show ?case by (simp add: ring_run_Cons del: ring_run.simps)
qed

lemma tracks_close:
  assumes "tracks r t"
  shows "get_ring (fst (close_ring r)) = join_nl (split_nl t)"
  using assms
  by (cases "current r") (auto simp: tracks_def close_ring_def get_ring_def Let_def)

text \<open>
  Claim C6, as amended.  For an unbounded ring (capacity at most 0) and chunks that do
  not cut a CRLF pair, \<^verbatim>\<open>get()\<close> after \<^verbatim>\<open>close()\<close> is the newline-join of the lines of the
  concatenated text, that is, the text with CR, LF and CRLF normalised to LF.
\<close>

theorem ring_roundtrip_unbounded:
  assumes "maxLines \<le> 0" "\<not> straddles [] chunks"
  shows "get_ring (fst (ring_run (linesRing maxLines) (map Append chunks @ [Close])))
           = join_nl (split_nl (concat chunks))"
proof -
  from assms(1) have "tracks (linesRing maxLines) []"
    by (simp add: tracks_def linesRing_def)
  from tracks_appends [OF this assms(2)]
  have "tracks (fst (ring_run (linesRing maxLines) (map Append chunks))) (concat chunks)"
    by simp
  from tracks_close [OF this] show ?thesis
    by (simp add: ring_run_append ring_run_Cons del: ring_run.simps(2))
qed

section \<open>Examples for the ring buffer\<close>

text \<open>
  Witness for C3: capacity 2, one chunk of five lines without a final newline.  The ring
  emits five lines and retains the last one.
\<close>

theorem ring_retains_last_lines_witness:
  "(0::int) < 2
   \<and> (case ring_run (linesRing 2)
              (Callback 0 # map Append [''1\<newline>2\<newline>3\<newline>4\<newline>5''] @ [Close]) of
         (r, ds) \<Rightarrow>
           int (length (lines r)) \<le> 2 - 1
         \<and> lines r = drop (length (received 0 ds) - nat (2 - 1)) (received 0 ds)
         \<and> current r = None
         \<and> get_ring r = join_nl (lines r))
   \<and> received 0 (snd (ring_run (linesRing 2)
         (Callback 0 # map Append [''1\<newline>2\<newline>3\<newline>4\<newline>5''] @ [Close])))
       = [''1'', ''2'', ''3'', ''4'', ''5'']
   \<and> lines (fst (ring_run (linesRing 2)
         (Callback 0 # map Append [''1\<newline>2\<newline>3\<newline>4\<newline>5''] @ [Close])))
       = [''5'']"
proof -
  have h: "(0::int) < 2" by simp
  note c = ring_retains_last_lines [OF h, of 0 "[''1\<newline>2\<newline>3\<newline>4\<newline>5'']"]
  have v1: "received 0 (snd (ring_run (linesRing 2)
         (Callback 0 # map Append [''1\<newline>2\<newline>3\<newline>4\<newline>5''] @ [Close])))
       = [''1'', ''2'', ''3'', ''4'', ''5'']"
    by (simp add: ring_eval)
  have v2: "lines (fst (ring_run (linesRing 2)
         (Callback 0 # map Append [''1\<newline>2\<newline>3\<newline>4\<newline>5''] @ [Close])))
       = [''5'']"
    by (simp add: ring_eval)
  show ?thesis by (intro conjI; fact)
qed

text \<open>
  Counterexample to C3 as stated: with capacity 2 and five lines written, \<^verbatim>\<open>get()\<close> holds
  lines 4 and 5 before \<^verbatim>\<open>close()\<close> but only line 5 after it; when the text ends with a
  newline, only the empty last line is left.
\<close>

theorem ring_keeps_K_lines_counterexample:
  "get_ring (fst (ring_run (linesRing 2) [Append ''1\<newline>2\<newline>3\<newline>4\<newline>5''])) = ''4\<newline>5''
   \<and> get_ring (fst (ring_run (linesRing 2) [Append ''1\<newline>2\<newline>3\<newline>4\<newline>5'', Close])) = ''5''
   \<and> lines (fst (ring_run (linesRing 2) [Append ''1\<newline>2\<newline>3\<newline>4\<newline>5'', Close]))
        \<noteq> [''4'', ''5'']
   \<and> lines (fst (ring_run (linesRing 2) [Append ''1\<newline>2\<newline>3\<newline>4\<newline>5\<newline>'', Close]))
        = [[]]"
  by (simp add: ring_eval)

text \<open>
  Witness for C4: capacity 2, three lines emitted before the late observer registers.
\<close>

theorem late_observer_replay_witness:
  "(1::nat) \<noteq> 0
   \<and> Callback 0 \<notin> set [Append ''a\<newline>b\<newline>c\<newline>''] \<and> Callback 1 \<notin> set [Append ''a\<newline>b\<newline>c\<newline>'']
   \<and> Callback 0 \<notin> set [Close] \<and> Callback 1 \<notin> set [Close]
   \<and> (case ring_run (linesRing 2) (Callback 0 # [Append ''a\<newline>b\<newline>c\<newline>'']) of (r1, ds1) \<Rightarrow>
        case ring_run (linesRing 2)
               (Callback 0 # [Append ''a\<newline>b\<newline>c\<newline>''] @ Callback 1 # [Close]) of (r, ds) \<Rightarrow>
          received 1 ds = lines r1 @ drop (length (received 0 ds1)) (received 0 ds)
        \<and> take (length (received 0 ds1)) (received 0 ds) = received 0 ds1
        \<and> ((2::int) \<le> 0 \<longrightarrow> received 1 ds = received 0 ds)
        \<and> ((2::int) > 0 \<longrightarrow> received 1 ds
              = drop (length (received 0 ds1) - nat (2 - 1)) (received 0 ds)))"
proof -
  have h1: "(1::nat) \<noteq> 0" by simp
  have h2: "Callback 0 \<notin> set [Append ''a\<newline>b\<newline>c\<newline>'']" by simp
  have h3: "Callback 1 \<notin> set [Append ''a\<newline>b\<newline>c\<newline>'']" by simp
  have h4: "Callback 0 \<notin> set [Close]" by simp
  have h5: "Callback 1 \<notin> set [Close]" by simp
  note c = late_observer_replay [OF h1 h2 h3 h4 h5, of 2]
  show ?thesis by (intro conjI; fact)
qed

text \<open>
  Counterexample to C4 as stated: with capacity 2 the ring emits the lines a, b, c and,
  at \<^verbatim>\<open>close()\<close>, the empty line; the observer registered after the append receives only
  c and the empty line.
\<close>

theorem late_observer_misses_evicted_counterexample:
  "received 0 (snd (ring_run (linesRing 2)
       [Callback 0, Append ''a\<newline>b\<newline>c\<newline>'', Callback 1, Close])) = [''a'', ''b'', ''c'', []]
   \<and> received 1 (snd (ring_run (linesRing 2)
       [Callback 0, Append ''a\<newline>b\<newline>c\<newline>'', Callback 1, Close])) = [''c'', []]"
  by (simp add: ring_eval)

text \<open>
  Witness for C6: an unbounded ring fed a text with all three newline conventions, cut
  into chunks at places other than inside a CRLF pair.
\<close>

theorem ring_roundtrip_unbounded_witness:
  "(0::int) \<le> 0
   \<and> \<not> straddles [] [''ab'' @ [CR], ''c'' @ [CR, LF] @ ''d'', [], ''e\<newline>'']
   \<and> get_ring (fst (ring_run (linesRing 0)
        (map Append [''ab'' @ [CR], ''c'' @ [CR, LF] @ ''d'', [], ''e\<newline>''] @ [Close])))
      = join_nl (split_nl (concat [''ab'' @ [CR], ''c'' @ [CR, LF] @ ''d'', [], ''e\<newline>'']))
   \<and> join_nl (split_nl (concat [''ab'' @ [CR], ''c'' @ [CR, LF] @ ''d'', [], ''e\<newline>'']))
      = ''ab\<newline>c\<newline>de\<newline>''"
proof -
  have h1: "(0::int) \<le> 0" by simp
  have h2: "\<not> straddles [] [''ab'' @ [CR], ''c'' @ [CR, LF] @ ''d'', [], ''e\<newline>'']"
    by (simp add: CR_def LF_def)
  note c = ring_roundtrip_unbounded [OF h1 h2]
  have v: "join_nl (split_nl (concat [''ab'' @ [CR], ''c'' @ [CR, LF] @ ''d'', [], ''e\<newline>'']))
      = ''ab\<newline>c\<newline>de\<newline>''"
    by (simp add: CR_def LF_def)
  show ?thesis by (intro conjI; fact)
qed

text \<open>
  Counterexample to C6 as stated: a ring of capacity 2 returns only the last line of a
  three-line text, and an unbounded ring that receives CR at the end of one chunk and LF
  at the start of the next returns an empty line that the normalised text does not have.
\<close>

theorem ring_roundtrip_counterexample:
  "get_ring (fst (ring_run (linesRing 2) [Append ''1\<newline>2\<newline>3'', Close])) = ''3''
   \<and> join_nl (split_nl ''1\<newline>2\<newline>3'') = ''1\<newline>2\<newline>3''
   \<and> get_ring (fst (ring_run (linesRing 0) [Append (''a'' @ [CR]), Append (LF # ''b''), Close]))
       = ''a\<newline>\<newline>b''
   \<and> join_nl (split_nl (concat [''a'' @ [CR], LF # ''b''])) = ''a\<newline>b''"
  by (simp add: ring_eval)

section \<open>Error-message extraction\<close>





section \<open>One run: handlers, gate and terminal emission\<close>

lemma final_pair_filters:
  "filter is_final (final_pair err a b) = final_pair err a b"
  "filter is_gate (final_pair err a b) = []"
  "filter is_stderr_emit (final_pair err a b) = []"
  by (simp_all add: final_pair_def split: option.splits)

lemma notify_filters:
  "filter is_final (notify ds) = []"
  "filter is_gate (notify ds) = []"
  by (induction ds) (simp_all add: notify_def)

lemma emitEnd_alt:
  "emitEnd err a b s =
     (if \<not> ended s then s\<lparr>ended := True, out := out s @ final_pair err a b\<rparr> else s)"
  by (simp add: emitEnd_def final_pair_def)

lemma endCB_total:
  "endCB x (Some (ra, rb)) s = Inr (projr (endCB x (Some (ra, rb)) s))"
  by (simp add: endCB_def Let_def split: option.splits)

lemma endCB_fields:
  "captureStdout (self (projr (endCB x (Some (ra, rb)) s))) = captureStdout (self s)"
  "timeout (self (projr (endCB x (Some (ra, rb)) s))) = timeout (self s)"
  "processExited (projr (endCB x (Some (ra, rb)) s)) = processExited s"
  "stderrClosed (projr (endCB x (Some (ra, rb)) s)) = stderrClosed s"
  "stdoutClosed (projr (endCB x (Some (ra, rb)) s)) = stdoutClosed s"
  "timerPending (projr (endCB x (Some (ra, rb)) s)) = timerPending s"
  "stdoutRing (projr (endCB x (Some (ra, rb)) s)) = stdoutRing s"
  "stderrRing (projr (endCB x (Some (ra, rb)) s)) = stderrRing s"
  "ended (projr (endCB x (Some (ra, rb)) s))"
  "out (projr (endCB x (Some (ra, rb)) s))
     = out s @ CallEndCB x #
         (if ended s then [] else final_pair (augmented x rb) (get_ring ra) (get_ring rb))"
  by (simp_all add: endCB_def emitEnd_alt augmented_def Let_def split: option.splits)

lemma gate_open_cong:
  "processExited s' = processExited s \<Longrightarrow> stdoutClosed s' = stdoutClosed s \<Longrightarrow>
   stderrClosed s' = stderrClosed s \<Longrightarrow> captureStdout (self s') = captureStdout (self s) \<Longrightarrow>
   gate_open s' = gate_open s"
  by (simp add: gate_open_def)

lemma handleExit_alt:
  "handleExit err s =
     (if gate_open s
      then endCB (stored err s) (Some (stdoutRing s, stderrRing s)) (s\<lparr>exitError := stored err s\<rparr>)
      else Inr (s\<lparr>exitError := stored err s\<rparr>))"
  by (cases err) (auto simp: handleExit_def stored_def gate_open_def Let_def)

lemma handleExit_total:
  "handleExit err s = Inr (projr (handleExit err s))"
  using endCB_total by (simp add: handleExit_alt)

lemma handleExit_fields:
  "captureStdout (self (projr (handleExit err s))) = captureStdout (self s)"
  "timeout (self (projr (handleExit err s))) = timeout (self s)"
  "processExited (projr (handleExit err s)) = processExited s"
  "stderrClosed (projr (handleExit err s)) = stderrClosed s"
  "stdoutClosed (projr (handleExit err s)) = stdoutClosed s"
  "timerPending (projr (handleExit err s)) = timerPending s"
  "stdoutRing (projr (handleExit err s)) = stdoutRing s"
  "stderrRing (projr (handleExit err s)) = stderrRing s"
  "ended (projr (handleExit err s)) = (ended s \<or> gate_open s)"
  "out (projr (handleExit err s))
     = out s @
        (if gate_open s
         then CallEndCB (stored err s) #
                (if ended s then []
                 else final_pair (augmented (stored err s) (stderrRing s))
                        (get_ring (stdoutRing s)) (get_ring (stderrRing s)))
         else [])"
  "\<not> gate_open s \<Longrightarrow> exitError (projr (handleExit err s)) = stored err s"
  by (simp_all add: handleExit_alt endCB_fields)

lemma handleExit_Inr: "\<exists>s'. handleExit err s = Inr s'"
  using handleExit_total by blast

lemma step_Inr: "\<not> is_proc_error ev \<Longrightarrow> \<exists>s'. step s ev = Inr s'"
  by (cases ev)
     (simp_all add: on_exit_def on_stdout_close_def on_stderr_close_def handleExit_Inr
        case_prod_beta Let_def)

lemmas step_unfold = on_exit_def on_stdout_close_def on_stderr_close_def on_stdout_data_def
  on_stderr_data_def on_timeout_def kill_def emitEnd_alt case_prod_beta Let_def

lemma step_frame:
  assumes "\<not> is_proc_error ev"
  shows "captureStdout (self (projr (step s ev))) = captureStdout (self s)"
    and "timeout (self (projr (step s ev))) = timeout (self s)"
  using assms by (cases ev; simp add: step_unfold handleExit_fields)+

lemma step_flags:
  assumes "\<not> is_proc_error ev"
  shows "processExited (projr (step s ev)) = (processExited s \<or> is_exit ev)"
    and "stderrClosed (projr (step s ev)) = (stderrClosed s \<or> ev = StderrClose)"
    and "stdoutClosed (projr (step s ev))
           = (stdoutClosed s \<or> (ev = StdoutClose \<and> captureStdout (self s)))"
    and "timerPending (projr (step s ev)) = (timerPending s \<and> ev \<noteq> Timeout)"
  using assms by (cases ev; simp add: step_unfold handleExit_fields)+

lemma step_gate_open:
  assumes "\<not> is_proc_error ev"
  shows "gate_open (projr (step s ev))
           = ((processExited s \<or> is_exit ev)
              \<and> (stdoutClosed s \<or> (ev = StdoutClose \<and> captureStdout (self s))
                  \<or> \<not> captureStdout (self s))
              \<and> (stderrClosed s \<or> ev = StderrClose))"
  using assms by (simp add: gate_open_def step_flags step_frame)


lemma step_gate:
  assumes "\<not> is_proc_error ev"
  shows "length (filter is_gate (out (projr (step s ev))))
           = length (filter is_gate (out s))
             + (if handled s ev \<and> gate_open (projr (step s ev)) then 1 else 0)"
  unfolding step_gate_open [OF assms]
  using assms
  by (cases ev)
     (auto simp: step_unfold handleExit_fields handled_def gate_open_def notify_filters
        final_pair_filters)


lemma steps_snoc:
  "steps s (evs @ [ev]) = (case steps s evs of Inl e \<Rightarrow> Inl e | Inr s1 \<Rightarrow> step s1 ev)"
  by (induction evs arbitrary: s) (simp_all split: sum.splits)


lemma no_proc_error_snoc:
  "no_proc_error (evs @ [ev]) = (no_proc_error evs \<and> \<not> is_proc_error ev)"
  by (simp add: no_proc_error_def)

lemma no_proc_error_Cons:
  "no_proc_error (ev # evs) = (\<not> is_proc_error ev \<and> no_proc_error evs)"
  by (simp add: no_proc_error_def)

lemma steps_Inr:
  "no_proc_error evs \<Longrightarrow> \<exists>s'. steps s evs = Inr s'"
proof (induction evs arbitrary: s)
  case Nil
  then show ?case by simp
next
  case (Cons ev evs)
  then have "\<not> is_proc_error ev" "no_proc_error evs"
    by (simp_all add: no_proc_error_Cons)
  from step_Inr [OF this(1), of s] obtain s1 where "step s ev = Inr s1" by blast
  with Cons.IH [OF \<open>no_proc_error evs\<close>, of s1] show ?case by simp
qed




lemma steps_Cons_projr:
  "\<not> is_proc_error ev \<Longrightarrow> steps s (ev # evs) = steps (projr (step s ev)) evs"
  using step_Inr [of ev s] by auto

lemma steps_flags:
  assumes "no_proc_error evs" "steps s evs = Inr s'"
  shows "captureStdout (self s') = captureStdout (self s)
       \<and> timeout (self s') = timeout (self s)
       \<and> processExited s' = (processExited s \<or> filter is_exit evs \<noteq> [])
       \<and> stderrClosed s' = (stderrClosed s \<or> StderrClose \<in> set evs)
       \<and> stdoutClosed s' = (stdoutClosed s \<or> (StdoutClose \<in> set evs \<and> captureStdout (self s)))
       \<and> timerPending s' = (timerPending s \<and> Timeout \<notin> set evs)"
  using assms
proof (induction evs arbitrary: s)
  case Nil
  then show ?case by simp
next
  case (Cons ev evs)
  then have ne: "\<not> is_proc_error ev" "no_proc_error evs"
    by (simp_all add: no_proc_error_Cons)
  from Cons.prems(2) have "steps (projr (step s ev)) evs = Inr s'"
    by (simp only: steps_Cons_projr [OF ne(1)])
  from Cons.IH [OF ne(2) this] show ?case
    by (auto simp: step_flags [OF ne(1)] step_frame [OF ne(1)])
qed




lemma constructor_state:
  assumes "ChildProcessCommand command0 args0 opts = Inr s0"
  shows "\<not> ended s0" "\<not> processExited s0" "\<not> stdoutClosed s0" "\<not> stderrClosed s0"
    "filter is_final (out s0) = []" "filter is_gate (out s0) = []"
    "filter is_stderr_emit (out s0) = []"
    "cbs (stdoutRing s0) = []" "cbs (stderrRing s0) = []"
    "timerPending s0 = (case opt_timeout opts of Some t \<Rightarrow> t \<noteq> 0 | None \<Rightarrow> False)"
    "timeout (self s0) = opt_timeout opts"
    "captureStdout (self s0) = (opt_captureStdout opts \<noteq> Some False)"
    "exitError s0 = None"
  using assms
  by (auto simp: ChildProcessCommand_def run_def spawnChildProcess_def linesRing_def notify_def
        Let_def split: if_splits)

lemma sig_reported:
  "SigExited \<in> set (concat (map sig_of evs)) = (filter is_exit evs \<noteq> [])"
  "SigStderrClosed \<in> set (concat (map sig_of evs)) = (StderrClose \<in> set evs)"
  "SigStdoutClosed \<in> set (concat (map sig_of evs)) = (StdoutClose \<in> set evs)"
proof (induction evs)
  case Nil
  case 1 show ?case by simp
  case 2 show ?case by simp
  case 3 show ?case by simp
next
  case (Cons ev evs)
  case 1 with Cons show ?case by (cases ev) simp_all
  case 2 with Cons show ?case by (cases ev) simp_all
  case 3 with Cons show ?case by (cases ev) simp_all
qed

lemma all_reported_iff:
  "all_reported capture evs
     = (filter is_exit evs \<noteq> [] \<and> StderrClose \<in> set evs
        \<and> (capture \<longrightarrow> StdoutClose \<in> set evs))"
proof -
  have "all_reported capture evs
          = (\<forall>g \<in> set (required capture). g \<in> set (concat (map sig_of evs)))"
    unfolding all_reported_def filter_empty_conv reported_def set_filter by blast
  also have "\<dots> = (SigExited \<in> set (concat (map sig_of evs))
                    \<and> SigStderrClosed \<in> set (concat (map sig_of evs))
                    \<and> (capture \<longrightarrow> SigStdoutClosed \<in> set (concat (map sig_of evs))))"
    by (simp add: required_def del: set_concat)
  finally show ?thesis by (simp only: sig_reported)
qed


lemma no_cbs_silent:
  "cbs r = [] \<Longrightarrow> snd (append_ring r d) = []"
  "cbs r = [] \<Longrightarrow> snd (close_ring r) = []"
  by (simp_all add: append_ring_def close_ring_def emit_ring_def Let_def split: option.splits)

lemma endCB_no_rings: "endCB (Some e) None s = Inl TypeError"
  by (simp add: endCB_def Let_def)

lemma step_no_observers:
  assumes "step s ev = Inr s'"
    and "cbs (stdoutRing s) = []" "cbs (stderrRing s) = []"
  shows "cbs (stdoutRing s') = [] \<and> cbs (stderrRing s') = []
       \<and> filter is_stderr_emit (out s') = filter is_stderr_emit (out s)"
proof -
  from assms(1) have s': "s' = projr (step s ev)" by simp
  from assms(1) have ne: "\<not> is_proc_error ev"
    by (cases ev) (simp_all add: endCB_no_rings)
  show ?thesis
    unfolding s' using ne assms(2,3)
    by (cases ev)
       (simp_all add: step_unfold handleExit_fields no_cbs_silent append_ring_fields
          close_ring_fields final_pair_filters notify_def)
qed

text \<open>
  Claim C10.  The constructor calls \<^verbatim>\<open>run()\<close> on a fresh emitter, so the check for
  \<^verbatim>\<open>'stderr'\<close> listeners finds none and no callback is registered on the stderr ring.
  Whatever happens afterwards, including the caller attaching a \<^verbatim>\<open>'stderr'\<close> listener to
  the returned object, no \<^verbatim>\<open>'stderr'\<close> notification is emitted.
\<close>

theorem stderr_never_emitted:
  assumes "ChildProcessCommand command0 args0 opts = Inr s0"
    and "steps s0 evs = Inr s"
  shows "filter is_stderr_emit (out s) = [] \<and> cbs (stderrRing s) = []"
proof -
  have "cbs (stdoutRing s1) = [] \<Longrightarrow> cbs (stderrRing s1) = [] \<Longrightarrow> steps s1 evs = Inr s \<Longrightarrow>
        filter is_stderr_emit (out s) = filter is_stderr_emit (out s1) \<and> cbs (stderrRing s) = []"
    for s1
  proof (induction evs arbitrary: s1)
    case Nil
    then show ?case by simp
  next
    case (Cons ev evs)
    from Cons.prems(3) obtain s2 where s2: "step s1 ev = Inr s2" "steps s2 evs = Inr s"
      by (auto split: sum.splits)
    from step_no_observers [OF s2(1) Cons.prems(1,2)]
    have a: "cbs (stdoutRing s2) = []" "cbs (stderrRing s2) = []"
      "filter is_stderr_emit (out s2) = filter is_stderr_emit (out s1)" by simp_all
    from Cons.IH [OF a(1,2) s2(2)] a(3) show ?case by simp
  qed
  with constructor_state [OF assms(1)] assms(2) show ?thesis by simp
qed

lemma step_gate_count:
  assumes "\<not> is_proc_error ev"
    and "is_exit ev \<longrightarrow> \<not> processExited s"
    and "ev = StderrClose \<longrightarrow> \<not> stderrClosed s"
    and "ev = StdoutClose \<and> captureStdout (self s) \<longrightarrow> \<not> stdoutClosed s"
  shows "length (filter is_gate (out (projr (step s ev)))) + (if gate_open s then 1 else 0)
           = length (filter is_gate (out s)) + (if gate_open (projr (step s ev)) then 1 else 0)"
  using assms(2-)
  unfolding step_gate [OF assms(1)] step_gate_open [OF assms(1)]
  by (auto simp: handled_def gate_open_def)

lemma reported_append:
  "reported capture (xs @ ys) = reported capture xs @ reported capture ys"
  by (simp add: reported_def)

lemma reported_mem:
  "g \<in> set (reported capture evs)
     = (g \<in> set (required capture) \<and> g \<in> set (concat (map sig_of evs)))"
  unfolding reported_def set_filter by blast

lemma fresh_signal:
  assumes "distinct (reported capture (evs @ [ev]))"
  shows "is_exit ev \<longrightarrow> filter is_exit evs = []"
    and "ev = StderrClose \<longrightarrow> StderrClose \<notin> set evs"
    and "ev = StdoutClose \<and> capture \<longrightarrow> StdoutClose \<notin> set evs"
proof -
  have a: "g \<in> set (required capture) \<Longrightarrow> sig_of ev = [g] \<Longrightarrow>
           g \<notin> set (concat (map sig_of evs))" for g
    using assms reported_mem [of g capture evs]
    by (simp add: reported_append) (simp add: reported_def)
  show "is_exit ev \<longrightarrow> filter is_exit evs = []"
    using a [of SigExited] by (cases ev) (simp_all only: sig_reported, simp_all add: required_def)
  show "ev = StderrClose \<longrightarrow> StderrClose \<notin> set evs"
    using a [of SigStderrClosed]
    by (cases ev) (simp_all only: sig_reported, simp_all add: required_def)
  show "ev = StdoutClose \<and> capture \<longrightarrow> StdoutClose \<notin> set evs"
    using a [of SigStdoutClosed]
    by (cases ev) (simp_all only: sig_reported, simp_all add: required_def)
qed

lemma gate_count:
  assumes "\<not> processExited s0" "\<not> stderrClosed s0" "\<not> stdoutClosed s0"
  shows "no_proc_error evs \<Longrightarrow> distinct (reported (captureStdout (self s0)) evs) \<Longrightarrow>
         steps s0 evs = Inr s \<Longrightarrow>
         length (filter is_gate (out s))
           = length (filter is_gate (out s0)) + (if gate_open s then 1 else 0)"
proof (induction evs arbitrary: s rule: rev_induct)
  case Nil
  with assms show ?case by (simp add: gate_open_def)
next
  case (snoc ev evs)
  from snoc.prems(1) have ne: "no_proc_error evs" "\<not> is_proc_error ev"
    by (simp_all add: no_proc_error_snoc)
  from snoc.prems(2) have d: "distinct (reported (captureStdout (self s0)) evs)"
    by (simp add: reported_append)
  from steps_Inr [OF ne(1), of s0] obtain s1 where s1: "steps s0 evs = Inr s1" by blast
  with snoc.prems(3) have s: "s = projr (step s1 ev)"
    by (simp add: steps_snoc)
  note fl = steps_flags [OF ne(1) s1]
  note fr = fresh_signal [OF snoc.prems(2)]
  have "length (filter is_gate (out s)) + (if gate_open s1 then 1 else 0)
          = length (filter is_gate (out s1)) + (if gate_open s then 1 else 0)"
    unfolding s
  proof (rule step_gate_count [OF ne(2)])
    show "is_exit ev \<longrightarrow> \<not> processExited s1" using fl fr(1) assms by simp
    show "ev = StderrClose \<longrightarrow> \<not> stderrClosed s1" using fl fr(2) assms by simp
    show "ev = StdoutClose \<and> captureStdout (self s1) \<longrightarrow> \<not> stdoutClosed s1"
      using fl fr(3) assms by simp
  qed
  with snoc.IH [OF ne(1) d s1] show ?case by (simp split: if_splits)
qed

lemma no_proc_error_take: "no_proc_error evs \<Longrightarrow> no_proc_error (take n evs)"
  unfolding no_proc_error_def
  by (metis append_take_drop_id filter_append append_is_Nil_conv)

lemma distinct_reported_take:
  "distinct (reported capture evs) \<Longrightarrow> distinct (reported capture (take n evs))"
  by (metis reported_append append_take_drop_id distinct_append)

text \<open>
  Claim C2.  For a command built by the constructor and every sequence of events without
  a spawn error in which no required signal is reported twice, after each prefix of the
  sequence \<^verbatim>\<open>endCB\<close> has been called by \<^verbatim>\<open>handleExit\<close> once if all required signals are in
  and not at all otherwise.  So the call happens while the last required signal is being
  handled, not before and not again.
\<close>

theorem gate_fires_exactly_once:
  assumes "ChildProcessCommand command0 args0 opts = Inr s0"
    and "no_proc_error evs"
    and "distinct (reported (captureStdout (self s0)) evs)"
  shows "\<exists>s. steps s0 (take n evs) = Inr s
           \<and> length (filter is_gate (out s))
               = (if all_reported (captureStdout (self s0)) (take n evs) then 1 else 0)"
proof -
  note init = constructor_state [OF assms(1)]
  note ne = no_proc_error_take [OF assms(2), of n]
  from steps_Inr [OF ne, of s0] obtain s where s: "steps s0 (take n evs) = Inr s" by blast
  from steps_flags [OF ne s] init
  have "gate_open s = all_reported (captureStdout (self s0)) (take n evs)"
    by (auto simp: gate_open_def all_reported_iff)
  with gate_count [OF init(2,4,3) ne distinct_reported_take [OF assms(3)] s] init s
  show ?thesis by simp
qed

lemma step_gate_arg_quiet:
  assumes "\<not> is_proc_error ev" "\<not> carries_error ev"
  shows "filter is_gate (out (projr (step s ev)))
           = filter is_gate (out s)
             @ (if handled s ev \<and> gate_open (projr (step s ev))
                then [CallEndCB (exitError s)] else [])"
    and "\<not> (handled s ev \<and> gate_open (projr (step s ev))) \<Longrightarrow>
           exitError (projr (step s ev)) = exitError s"
  unfolding step_gate_open [OF assms(1)]
  using assms
  by (cases ev;
      auto simp: step_unfold handleExit_fields handled_def gate_open_def notify_filters
        final_pair_filters stored_def carries_error_def)+

lemma step_gate_mono:
  assumes "\<not> is_proc_error ev"
  shows "\<exists>G. filter is_gate (out (projr (step s ev))) = filter is_gate (out s) @ G"
  using assms
  by (cases ev) (auto simp: step_unfold handleExit_fields)

lemma steps_gate_mono:
  assumes "no_proc_error evs" "steps s evs = Inr s'"
  shows "\<exists>G. filter is_gate (out s') = filter is_gate (out s) @ G"
  using assms
proof (induction evs arbitrary: s)
  case Nil
  then show ?case by simp
next
  case (Cons ev evs)
  then have ne: "\<not> is_proc_error ev" "no_proc_error evs"
    by (simp_all add: no_proc_error_Cons)
  from Cons.prems(2) have st: "steps (projr (step s ev)) evs = Inr s'"
    by (simp only: steps_Cons_projr [OF ne(1)])
  from Cons.IH [OF ne(2) st] step_gate_mono [OF ne(1), of s] show ?case
    by (metis append_assoc)
qed

text \<open>
  Claim C8.  Once \<^verbatim>\<open>exitError\<close> holds an error, reports that carry no error leave it as
  it is for as long as \<^verbatim>\<open>handleExit\<close> has not called \<^verbatim>\<open>endCB\<close>, and the first such call
  receives that error.
\<close>

theorem stored_error_preserved:
  assumes "exitError s = Some e"
    and "no_proc_error evs"
    and "filter carries_error evs = []"
  shows "\<exists>s' G. steps s evs = Inr s'
           \<and> filter is_gate (out s') = filter is_gate (out s) @ G
           \<and> ((G = [] \<and> exitError s' = Some e) \<or> (\<exists>rest. G = CallEndCB (Some e) # rest))"
  using assms
proof (induction evs arbitrary: s)
  case Nil
  then show ?case by simp
next
  case (Cons ev evs)
  then have ne: "\<not> is_proc_error ev" "no_proc_error evs"
    and q: "\<not> carries_error ev" "filter carries_error evs = []"
    by (simp_all add: no_proc_error_Cons split: if_splits)
  define s1 where "s1 = projr (step s ev)"
  have st: "steps s (ev # evs) = steps s1 evs"
    unfolding s1_def by (rule steps_Cons_projr [OF ne(1)])
  note g = step_gate_arg_quiet [OF ne(1) q(1), of s, folded s1_def]
  show ?case
  proof (cases "handled s ev \<and> gate_open s1")
    case True
    from steps_Inr [OF ne(2), of s1] obtain s' where s': "steps s1 evs = Inr s'" by blast
    from steps_gate_mono [OF ne(2) s'] obtain G where
      "filter is_gate (out s') = filter is_gate (out s1) @ G" by blast
    with g(1) True Cons.prems(1)
    have "filter is_gate (out s') = filter is_gate (out s) @ CallEndCB (Some e) # G"
      by simp
    with s' st show ?thesis by auto
  next
    case False
    with g(2) Cons.prems(1) have "exitError s1 = Some e" by simp
    from Cons.IH [OF this ne(2) q(2)] obtain s' G where
      "steps s1 evs = Inr s'"
      "filter is_gate (out s') = filter is_gate (out s1) @ G"
      "(G = [] \<and> exitError s' = Some e) \<or> (\<exists>rest. G = CallEndCB (Some e) # rest)"
      by blast
    with g(1) False st show ?thesis by auto
  qed
qed





section \<open>Claims about the run, with examples\<close>


lemma showInt_2: "showInt 2 = ''2''"
  by code_simp



text \<open>
  Claim C5 fails on the code.  The process error handler calls \<^verbatim>\<open>endCB(err)\<close> without
  the rings, and \<^verbatim>\<open>endCB\<close> reads \<^verbatim>\<open>stdoutRing.get()\<close> (or \<^verbatim>\<open>stderrRing.get()\<close>) before it
  reaches \<^verbatim>\<open>emitEnd\<close>: the handler throws a TypeError and nothing is emitted.
\<close>

theorem spawn_error_throws:
  "steps s (ProcError e # evs) = Inl TypeError"
  by (simp add: endCB_no_rings)


text \<open>
  Witness for C2: stderr closes, the process exits, stdout closes.  After three events the
  gate has not fired; after the fourth it has fired once.
\<close>

theorem gate_fires_exactly_once_witness:
  "ChildProcessCommand ''cmd'' [] default_options = Inr (spawnChildProcess demo_cmd)
   \<and> no_proc_error [StderrClose, StdoutData ''x'', Exit (Some 0) None, StdoutClose]
   \<and> distinct (reported (captureStdout (self (spawnChildProcess demo_cmd)))
                 [StderrClose, StdoutData ''x'', Exit (Some 0) None, StdoutClose])
   \<and> (\<exists>s. steps (spawnChildProcess demo_cmd)
              (take 3 [StderrClose, StdoutData ''x'', Exit (Some 0) None, StdoutClose]) = Inr s
          \<and> length (filter is_gate (out s)) = 0)
   \<and> (\<exists>s. steps (spawnChildProcess demo_cmd)
              (take 4 [StderrClose, StdoutData ''x'', Exit (Some 0) None, StdoutClose]) = Inr s
          \<and> length (filter is_gate (out s)) = 1)"
proof -
  have h1: "ChildProcessCommand ''cmd'' [] default_options = Inr (spawnChildProcess demo_cmd)"
    by (simp add: ChildProcessCommand_def run_def default_options_def demo_cmd_def)
  have h2: "no_proc_error [StderrClose, StdoutData ''x'', Exit (Some 0) None, StdoutClose]"
    by (simp add: no_proc_error_def)
  have h3: "distinct (reported (captureStdout (self (spawnChildProcess demo_cmd)))
                 [StderrClose, StdoutData ''x'', Exit (Some 0) None, StdoutClose])"
    by (simp add: reported_def required_def spawnChildProcess_def demo_cmd_def)
  have a3: "\<not> all_reported (captureStdout (self (spawnChildProcess demo_cmd)))
              (take 3 [StderrClose, StdoutData ''x'', Exit (Some 0) None, StdoutClose])"
    by (simp add: all_reported_iff spawnChildProcess_def demo_cmd_def)
  have a4: "all_reported (captureStdout (self (spawnChildProcess demo_cmd)))
              (take 4 [StderrClose, StdoutData ''x'', Exit (Some 0) None, StdoutClose])"
    by (simp add: all_reported_iff spawnChildProcess_def demo_cmd_def)
  from gate_fires_exactly_once [OF h1 h2 h3, of 3] a3
  have c3: "\<exists>s. steps (spawnChildProcess demo_cmd)
              (take 3 [StderrClose, StdoutData ''x'', Exit (Some 0) None, StdoutClose]) = Inr s
          \<and> length (filter is_gate (out s)) = 0"
    by (simp only: if_False)
  from gate_fires_exactly_once [OF h1 h2 h3, of 4] a4
  have c4: "\<exists>s. steps (spawnChildProcess demo_cmd)
              (take 4 [StderrClose, StdoutData ''x'', Exit (Some 0) None, StdoutClose]) = Inr s
          \<and> length (filter is_gate (out s)) = 1"
    by (simp only: if_True)
  show ?thesis by (intro conjI h1 h2 h3 c3 c4)
qed

text \<open>
  Witness for C10: the caller attaches a \<^verbatim>\<open>'stderr'\<close> listener to the returned object and
  the process then writes a line to stderr.
\<close>

theorem stderr_never_emitted_witness:
  "ChildProcessCommand ''cmd'' [] default_options = Inr (spawnChildProcess demo_cmd)
   \<and> steps (spawnChildProcess demo_cmd)
        [UserOnStderr, StderrData ''warn\<newline>'', StderrClose, StdoutClose, Exit (Some 0) None]
      = Inr (projr (steps (spawnChildProcess demo_cmd)
        [UserOnStderr, StderrData ''warn\<newline>'', StderrClose, StdoutClose, Exit (Some 0) None]))
   \<and> filter is_stderr_emit (out (projr (steps (spawnChildProcess demo_cmd)
        [UserOnStderr, StderrData ''warn\<newline>'', StderrClose, StdoutClose, Exit (Some 0) None]))) = []
   \<and> cbs (stderrRing (projr (steps (spawnChildProcess demo_cmd)
        [UserOnStderr, StderrData ''warn\<newline>'', StderrClose, StdoutClose, Exit (Some 0) None]))) = []
   \<and> stderrListeners (self (projr (steps (spawnChildProcess demo_cmd)
        [UserOnStderr, StderrData ''warn\<newline>'', StderrClose, StdoutClose, Exit (Some 0) None]))) = 1"
proof -
  have h1: "ChildProcessCommand ''cmd'' [] default_options = Inr (spawnChildProcess demo_cmd)"
    by (simp add: ChildProcessCommand_def run_def default_options_def demo_cmd_def)
  have h2: "steps (spawnChildProcess demo_cmd)
        [UserOnStderr, StderrData ''warn\<newline>'', StderrClose, StdoutClose, Exit (Some 0) None]
      = Inr (projr (steps (spawnChildProcess demo_cmd)
        [UserOnStderr, StderrData ''warn\<newline>'', StderrClose, StdoutClose, Exit (Some 0) None]))"
    by (simp add: session_eval ring_eval)
  note c = stderr_never_emitted [OF h1 h2]
  have v: "stderrListeners (self (projr (steps (spawnChildProcess demo_cmd)
        [UserOnStderr, StderrData ''warn\<newline>'', StderrClose, StdoutClose, Exit (Some 0) None]))) = 1"
    by (simp add: session_eval ring_eval)
  show ?thesis by (intro conjI h1 h2 c [THEN conjunct1] c [THEN conjunct2] v)
qed

text \<open>
  For contrast: \<^verbatim>\<open>run()\<close> on an object that already has a \<^verbatim>\<open>'stderr'\<close> listener does emit
  the lines.
\<close>

lemma run_with_listener_emits_stderr:
  "filter is_stderr_emit
     (out (projr (steps (spawnChildProcess (demo_cmd\<lparr>stderrListeners := 1\<rparr>))
                    [StderrData ''warn\<newline>'', StderrClose])))
     = [EmitStderr ''warn'', EmitStderr []]"
  by (simp add: session_eval ring_eval)


text \<open>
  Witness for C8: the process has exited with code 2; stderr and then stdout close.
\<close>

theorem stored_error_preserved_witness:
  "exitError exited_state = Some ''child process target exited with code 2''
   \<and> no_proc_error [StdoutData ''x'', StderrClose, StdoutClose]
   \<and> filter carries_error [StdoutData ''x'', StderrClose, StdoutClose] = []
   \<and> (\<exists>s' G. steps exited_state [StdoutData ''x'', StderrClose, StdoutClose] = Inr s'
          \<and> filter is_gate (out s') = filter is_gate (out exited_state) @ G
          \<and> ((G = [] \<and> exitError s' = Some ''child process target exited with code 2'')
              \<or> (\<exists>rest. G = CallEndCB (Some ''child process target exited with code 2'') # rest)))
   \<and> exitError (projr (steps exited_state [StdoutData ''x'', StderrClose]))
       = Some ''child process target exited with code 2''
   \<and> filter is_gate (out (projr (steps exited_state [StdoutData ''x'', StderrClose, StdoutClose])))
       = [CallEndCB (Some ''child process target exited with code 2'')]"
proof -
  have h1: "exitError exited_state = Some ''child process target exited with code 2''"
    by (simp add: session_eval ring_eval showInt_2)
  have h2: "no_proc_error [StdoutData ''x'', StderrClose, StdoutClose]"
    by (simp add: no_proc_error_def)
  have h3: "filter carries_error [StdoutData ''x'', StderrClose, StdoutClose] = []"
    by (simp add: carries_error_def)
  note c = stored_error_preserved [OF h1 h2 h3]
  have v1: "exitError (projr (steps exited_state [StdoutData ''x'', StderrClose]))
       = Some ''child process target exited with code 2''"
    by (simp add: session_eval ring_eval showInt_2)
  have v2: "filter is_gate (out (projr (steps exited_state [StdoutData ''x'', StderrClose, StdoutClose])))
       = [CallEndCB (Some ''child process target exited with code 2'')]"
    by (simp add: session_eval ring_eval showInt_2)
  show ?thesis by (intro conjI h1 h2 h3 c v1 v2)
qed

end
